theory Spec2Isabelle
  imports Complex_Main "HOL-Library.Char_ord" "HOL-Library.List_Lexorder"
begin

section \<open>Values, records and errors\<close>

text \<open>
  A record of the snapshot is a Python dict from column names to values. The search
  functions look at a value only through \<open>str\<close>, so the values are the integers and
  strings the table holds, and \<open>None\<close>; a date or a decimal amount is carried as the
  string \<open>str\<close> gives for it. Strings are compared as Python compares them:
  lexicographically, character by character.
\<close>

datatype pyval = PyInt int | PyStr string | PyNone

type_synonym pydict = "string \<rightharpoonup> pyval"

datatype error = KeyError | IndexError | AttributeError | DatabaseError

definition digit_char :: "nat \<Rightarrow> char" where
  "digit_char d = ''0123456789'' ! d"

function str_nat :: "nat \<Rightarrow> string" where
  "str_nat n = (if n < 10 then [digit_char n] else str_nat (n div 10) @ [digit_char (n mod 10)])"
  by pat_completeness auto

termination
  by (relation "measure id") auto

definition py_str :: "pyval \<Rightarrow> string" where
  "py_str v = (case v of
       PyInt i \<Rightarrow> (if i < 0 then CHR ''-'' # str_nat (nat (- i)) else str_nat (nat i))
     | PyStr s \<Rightarrow> s
     | PyNone \<Rightarrow> ''None'')"

definition getitem :: "pydict \<Rightarrow> string \<Rightarrow> error + pyval" where
  \<comment> \<open>\<open>record[column]\<close>: a missing key raises KeyError.\<close>
  "getitem r k = (case r k of None \<Rightarrow> Inl KeyError | Some v \<Rightarrow> Inr v)"

definition index_list :: "'a list \<Rightarrow> int \<Rightarrow> error + 'a" where
  \<comment> \<open>\<open>xs[i]\<close>: a negative index counts from the end, out of range raises IndexError.\<close>
  "index_list xs i =
     (if 0 \<le> i \<and> i < int (length xs) then Inr (xs ! nat i)
      else if - int (length xs) \<le> i \<and> i < 0 then Inr (xs ! nat (int (length xs) + i))
      else Inl IndexError)"

section \<open>Sequential search\<close>

text \<open>
  The \<open>for\<close> loop of \<open>sequential_search\<close> over the records still to visit, with the
  counter \<open>comparisons\<close> as it stands on entry. The lookup \<open>record[search_column]\<close> is
  not guarded, so a KeyError leaves the function.
\<close>

fun sequential_loop ::
  "pydict list \<Rightarrow> string \<Rightarrow> string \<Rightarrow> nat \<Rightarrow> error + (pydict option \<times> nat)" where
  "sequential_loop [] search_column target comparisons = Inr (None, comparisons)"
| "sequential_loop (record # rest) search_column target comparisons =
     (case getitem record search_column of
        Inl e \<Rightarrow> Inl e
      | Inr v \<Rightarrow>
          if py_str v = target then Inr (Some record, comparisons + 1)
          else sequential_loop rest search_column target (comparisons + 1))"

definition sequential_search ::
  "pydict list \<Rightarrow> pyval \<Rightarrow> string \<Rightarrow> error + (pydict option \<times> nat)" where
  "sequential_search product_data target_value search_column =
     sequential_loop product_data search_column (py_str target_value) 0"

section \<open>Binary search\<close>

text \<open>
  \<open>sorted(self.product_data, key=lambda x: str(x[search_column]))\<close> computes the key of
  every record, in order, before it sorts: the first record without the column raises
  KeyError. The sort is stable, as \<open>sort_key\<close> is.
\<close>

fun column_keys :: "pydict list \<Rightarrow> string \<Rightarrow> error + string list" where
  "column_keys [] search_column = Inr []"
| "column_keys (record # rest) search_column =
     (case getitem record search_column of
        Inl e \<Rightarrow> Inl e
      | Inr v \<Rightarrow>
          (case column_keys rest search_column of
             Inl e \<Rightarrow> Inl e
           | Inr ks \<Rightarrow> Inr (py_str v # ks)))"

definition sorted_by_column :: "pydict list \<Rightarrow> string \<Rightarrow> error + pydict list" where
  "sorted_by_column product_data search_column =
     (case column_keys product_data search_column of
        Inl e \<Rightarrow> Inl e
      | Inr ks \<Rightarrow> Inr (map snd (sort_key fst (zip ks product_data))))"

text \<open>
  The \<open>while left <= right\<close> loop. \<open>left\<close> and \<open>right\<close> are Python integers
  (\<open>right\<close> is \<open>-1\<close> on an empty list), \<open>//\<close> is floor division.
\<close>

function binary_loop ::
  "pydict list \<Rightarrow> string \<Rightarrow> string \<Rightarrow> int \<Rightarrow> int \<Rightarrow> nat \<Rightarrow> error + (pydict option \<times> nat)"
  where
  "binary_loop sorted_data search_column target left right comparisons =
     (if left \<le> right then
        (case index_list sorted_data ((left + right) div 2) of
           Inl e \<Rightarrow> Inl e
         | Inr record \<Rightarrow>
             (case getitem record search_column of
                Inl e \<Rightarrow> Inl e
              | Inr v \<Rightarrow>
                  if py_str v = target then Inr (Some record, comparisons + 1)
                  else if py_str v < target then
                    binary_loop sorted_data search_column target
                      ((left + right) div 2 + 1) right (comparisons + 1)
                  else
                    binary_loop sorted_data search_column target
                      left ((left + right) div 2 - 1) (comparisons + 1)))
      else Inr (None, comparisons))"
  by pat_completeness auto

termination
  by (relation "measure (\<lambda>(sorted_data, search_column, target, left, right, comparisons).
        nat (right - left + 1))") auto

definition binary_search ::
  "pydict list \<Rightarrow> pyval \<Rightarrow> string \<Rightarrow> error + (pydict option \<times> nat)" where
  "binary_search product_data target_value search_column =
     (case sorted_by_column product_data search_column of
        Inl e \<Rightarrow> Inr (None, 0)
      | Inr sorted_data \<Rightarrow>
          binary_loop sorted_data search_column (py_str target_value)
            0 (int (length sorted_data) - 1) 0)"

text \<open>
  What \<open>binary_search\<close> prints: the message of the handler when the sort raised
  KeyError, otherwise the line before the loop and the line of whichever \<open>return\<close>
  ends it.
\<close>

datatype message =
  ColumnNotFound string | SearchingSorted | FoundAfter nat | NotFoundAfter nat

definition binary_search_printed :: "pydict list \<Rightarrow> pyval \<Rightarrow> string \<Rightarrow> message list" where
  "binary_search_printed product_data target_value search_column =
     (case sorted_by_column product_data search_column of
        Inl e \<Rightarrow> [ColumnNotFound search_column]
      | Inr sorted_data \<Rightarrow>
          SearchingSorted #
          (case binary_loop sorted_data search_column (py_str target_value)
                  0 (int (length sorted_data) - 1) 0 of
             Inl e \<Rightarrow> []
           | Inr (None, comparisons) \<Rightarrow> [NotFoundAfter comparisons]
           | Inr (Some record, comparisons) \<Rightarrow> [FoundAfter comparisons]))"

text \<open>
  \<open>sorted\<close> builds a new list object and leaves its argument alone. To state that, list
  objects live in a heap addressed by position; \<open>self.product_data\<close> is an address,
  and allocation appends.
\<close>

type_synonym heap = "pydict list list"

definition py_sorted :: "heap \<Rightarrow> nat \<Rightarrow> string \<Rightarrow> (error + nat) \<times> heap" where
  "py_sorted h data_ref search_column =
     (case sorted_by_column (h ! data_ref) search_column of
        Inl e \<Rightarrow> (Inl e, h)
      | Inr sorted_data \<Rightarrow> (Inr (length h), h @ [sorted_data]))"

definition binary_search_heap ::
  "heap \<Rightarrow> nat \<Rightarrow> pyval \<Rightarrow> string \<Rightarrow> (error + (pydict option \<times> nat)) \<times> heap" where
  "binary_search_heap h product_data_ref target_value search_column =
     (case py_sorted h product_data_ref search_column of
        (Inl e, h') \<Rightarrow> (Inr (None, 0), h')
      | (Inr sorted_ref, h') \<Rightarrow>
          (binary_loop (h' ! sorted_ref) search_column (py_str target_value)
             0 (int (length (h' ! sorted_ref)) - 1) 0, h'))"

section \<open>Query executor\<close>

text \<open>
  The store is outside the program. A connection answers the one-row lookup
  \<open>SELECT * FROM customer_purchases WHERE column = value\<close> with the row \<open>fetchone\<close>
  returns or with an exception, and the load query with the column names and the rows.
  \<open>after_load\<close> is the exception, if any, of what \<open>fetch_all_data\<close> still does
  inside its \<open>try\<close> once the snapshot is assigned (\<open>cursor.close()\<close> and the print).
  The elapsed time between the two \<open>perf_counter\<close> readings is given by the caller of
  the model.
\<close>

record db_connection =
  run_query :: "string \<Rightarrow> pyval \<Rightarrow> error + pyval list option"
  select_all :: "error + (string list \<times> pyval list list)"
  after_load :: "error option"

definition table_columns :: "string list" where
  "table_columns = [''customer_id'', ''customer_name'', ''purchase_date'',
                    ''product_id'', ''product_category'', ''amount'']"

definition database_search_indexed ::
  "db_connection option \<Rightarrow> real \<Rightarrow> pyval \<Rightarrow> string \<Rightarrow> pydict option \<times> real" where
  "database_search_indexed conn elapsed search_value column =
     (case conn of
        None \<Rightarrow> (None, 0)
      | Some c \<Rightarrow>
          (case run_query c column search_value of
             Inl e \<Rightarrow> (None, 0)
           | Inr result \<Rightarrow>
               (case result of
                  None \<Rightarrow> (None, elapsed)
                | Some row \<Rightarrow>
                    if row = [] then (None, elapsed)
                    else (Some (Map.empty (table_columns [\<mapsto>] row)), elapsed))))"

definition database_search_unindexed ::
  "db_connection option \<Rightarrow> real \<Rightarrow> pyval \<Rightarrow> string \<Rightarrow> pydict option \<times> real" where
  "database_search_unindexed conn elapsed search_value column =
     (case conn of
        None \<Rightarrow> (None, 0)
      | Some c \<Rightarrow>
          (case run_query c column search_value of
             Inl e \<Rightarrow> (None, 0)
           | Inr result \<Rightarrow>
               (case result of
                  None \<Rightarrow> (None, elapsed)
                | Some row \<Rightarrow>
                    if row = [] then (None, elapsed)
                    else (Some (Map.empty (table_columns [\<mapsto>] row)), elapsed))))"

section \<open>Comparison reporter\<close>

text \<open>
  \<open>perform_search_comparison\<close> prints what it computes; the model returns the printed
  figures. The two searches are called without a handler, so an exception of either
  leaves the reporter. The speed-up is the quotient of the two counts, printed only
  when both are positive.
\<close>

record report =
  shown_db_time :: real
  shown_binary :: nat
  shown_sequential :: nat
  speedup :: "real option"
  found_record :: "pydict option"

definition indexed_columns :: "string list" where
  "indexed_columns = [''customer_id'', ''product_category'', ''purchase_date'']"

definition perform_search_comparison ::
  "db_connection option \<Rightarrow> real \<Rightarrow> pydict list \<Rightarrow> pyval \<Rightarrow> string \<Rightarrow> error + report" where
  "perform_search_comparison conn elapsed product_data search_value column =
     (case (if column \<in> set indexed_columns
            then database_search_indexed conn elapsed search_value column
            else database_search_unindexed conn elapsed search_value column) of
        (db_result, db_time) \<Rightarrow>
          (case binary_search product_data search_value column of
             Inl e \<Rightarrow> Inl e
           | Inr (binary_result, binary_comparisons) \<Rightarrow>
               (case sequential_search product_data search_value column of
                  Inl e \<Rightarrow> Inl e
                | Inr (sequential_result, sequential_comparisons) \<Rightarrow>
                    Inr \<lparr>shown_db_time = db_time,
                         shown_binary = binary_comparisons,
                         shown_sequential = sequential_comparisons,
                         speedup =
                           (if sequential_comparisons > 0 \<and> binary_comparisons > 0
                            then Some (real sequential_comparisons / real binary_comparisons)
                            else None),
                         found_record = db_result\<rparr>)))"

definition reported_speedup ::
  "db_connection option \<Rightarrow> real \<Rightarrow> pydict list \<Rightarrow> pyval \<Rightarrow> string \<Rightarrow> real option" where
  "reported_speedup conn elapsed product_data search_value column =
     (case perform_search_comparison conn elapsed product_data search_value column of
        Inl e \<Rightarrow> None
      | Inr rep \<Rightarrow> speedup rep)"

section \<open>Start-up\<close>

text \<open>
  \<open>__init__\<close> sets \<open>connection = None\<close> and \<open>product_data = []\<close> and calls
  \<open>connect_to_database\<close>, whose handler calls \<open>self.load_from_csv()\<close>. The
  \<open>def load_from_csv\<close> of the class is commented out, so the attribute lookup raises
  AttributeError, inside the handler and therefore out of the constructor. \<open>main\<close>
  builds the analyzer outside its \<open>try\<close>, fetches the data and stops with
  "No data available" when there is none. In \<open>fetch_all_data\<close> an exception before
  the assignment to \<open>self.product_data\<close> returns \<open>[]\<close> and leaves the snapshot as
  it was; an exception after it returns \<open>[]\<close> with the snapshot already replaced.
\<close>

record analyzer =
  connection :: "db_connection option"
  product_data :: "pydict list"

definition load_from_csv :: "analyzer \<Rightarrow> error + analyzer" where
  "load_from_csv self = Inl AttributeError"

definition connect_to_database :: "error + db_connection \<Rightarrow> analyzer \<Rightarrow> error + analyzer" where
  "connect_to_database connect_result self =
     (case connect_result of
        Inr c \<Rightarrow> Inr (self\<lparr>connection := Some c\<rparr>)
      | Inl e \<Rightarrow> load_from_csv self)"

definition init :: "error + db_connection \<Rightarrow> error + analyzer" where
  "init connect_result =
     connect_to_database connect_result \<lparr>connection = None, product_data = []\<rparr>"

definition fetch_all_data :: "analyzer \<Rightarrow> pydict list \<times> analyzer" where
  "fetch_all_data self =
     (case connection self of
        Some c \<Rightarrow>
          (case select_all c of
             Inl e \<Rightarrow> ([], self)
           | Inr (columns, rows) \<Rightarrow>
               (case after_load c of
                  Some e \<Rightarrow>
                    ([], self\<lparr>product_data :=
                               map (\<lambda>row. Map.empty (columns [\<mapsto>] row)) rows\<rparr>)
                | None \<Rightarrow>
                    (map (\<lambda>row. Map.empty (columns [\<mapsto>] row)) rows,
                     self\<lparr>product_data :=
                            map (\<lambda>row. Map.empty (columns [\<mapsto>] row)) rows\<rparr>)))
      | None \<Rightarrow> (product_data self, self))"

datatype outcome = NoDataAvailable | SessionStarted analyzer

definition main_startup :: "error + db_connection \<Rightarrow> error + outcome" where
  "main_startup connect_result =
     (case init connect_result of
        Inl e \<Rightarrow> Inl e
      | Inr a \<Rightarrow>
          (case fetch_all_data a of
             (data, a') \<Rightarrow> if data = [] then Inr NoDataAvailable else Inr (SessionStarted a')))"

section \<open>Vocabulary of the properties\<close>

definition has_column :: "string \<Rightarrow> pydict \<Rightarrow> bool" where
  "has_column search_column record = (record search_column \<noteq> None)"

definition matches :: "string \<Rightarrow> pyval \<Rightarrow> pydict \<Rightarrow> bool" where
  "matches search_column target_value record =
     (case record search_column of
        None \<Rightarrow> False
      | Some v \<Rightarrow> py_str v = py_str target_value)"

definition column_key :: "string \<Rightarrow> pydict \<Rightarrow> string" where
  "column_key search_column record =
     (case record search_column of None \<Rightarrow> [] | Some v \<Rightarrow> py_str v)"

definition loop_post ::
  "pydict list \<Rightarrow> string \<Rightarrow> string \<Rightarrow> nat \<Rightarrow> nat \<Rightarrow> pydict option \<Rightarrow> nat \<Rightarrow> bool" where
  "loop_post sd c t n width x k \<longleftrightarrow>
     (case x of
        None \<Rightarrow> \<forall>r\<in>set sd. column_key c r \<noteq> t
      | Some r \<Rightarrow> r \<in> set sd \<and> column_key c r = t) \<and>
     n \<le> k \<and> (0 < width \<longrightarrow> n < k) \<and> (k = n \<or> 2 ^ (k - n - 1) \<le> width)"

subsection \<open>Sample data\<close>

definition purchase ::
  "int \<Rightarrow> string \<Rightarrow> string \<Rightarrow> int \<Rightarrow> string \<Rightarrow> string \<Rightarrow> pydict" where
  "purchase cid name date pid category amount =
     [''customer_id'' \<mapsto> PyInt cid, ''customer_name'' \<mapsto> PyStr name,
      ''purchase_date'' \<mapsto> PyStr date, ''product_id'' \<mapsto> PyInt pid,
      ''product_category'' \<mapsto> PyStr category, ''amount'' \<mapsto> PyStr amount]"

definition snapshot3 :: "pydict list" where
  "snapshot3 =
     [purchase 1 ''Ada'' ''2024-01-05'' 501 ''Books'' ''19.99'',
      purchase 2 ''Bob'' ''2024-01-06'' 502 ''Games'' ''59.00'',
      purchase 3 ''Cy'' ''2024-01-07'' 503 ''Books'' ''7.50'']"

definition ragged3 :: "pydict list" where
  "ragged3 =
     [purchase 1 ''Ada'' ''2024-01-05'' 501 ''Books'' ''19.99'',
      (purchase 2 ''Bob'' ''2024-01-06'' 502 ''Games'' ''59.00'') (''customer_name'' := None),
      purchase 3 ''Cy'' ''2024-01-07'' 503 ''Books'' ''7.50'']"

definition failing_store :: db_connection where
  "failing_store =
     \<lparr>run_query = (\<lambda>column v. Inl DatabaseError), select_all = Inl DatabaseError,
      after_load = None\<rparr>"

section \<open>Facts about the sort and the two loops\<close>

text \<open>
  The defining equations of the two recursions by measure are applied by hand, not by
  the simplifier.
\<close>

declare str_nat.simps [simp del]

lemma column_keys_present:
  "\<forall>r\<in>set s. has_column c r \<Longrightarrow> column_keys s c = Inr (map (column_key c) s)"
  by (induction s) (auto simp: has_column_def column_key_def getitem_def)

lemma column_keys_missing:
  "\<exists>r\<in>set s. \<not> has_column c r \<Longrightarrow> column_keys s c = Inl KeyError"
proof (induction s)
  case Nil
  then show ?case by simp
next
  case (Cons a s)
  show ?case
  proof (cases "has_column c a")
    case False
    then show ?thesis by (simp add: has_column_def getitem_def)
  next
    case True
    with Cons.prems have "\<exists>r\<in>set s. \<not> has_column c r" by auto
    then have "column_keys s c = Inl KeyError" by (rule Cons.IH)
    then show ?thesis by (simp add: getitem_def split: option.splits)
  qed
qed

lemma undecorate_insort:
  "\<forall>p\<in>set ys. fst p = f (snd p) \<Longrightarrow>
   map snd (insort_key fst (f x, x) ys) = insort_key f x (map snd ys)"
  by (induction ys) auto

lemma set_insort_key_pairs: "set (insort_key g p ys) = insert p (set ys)"
  by (induction ys) auto

lemma decorate_sort:
  "map snd (sort_key fst (zip (map f xs) xs)) = sort_key f xs"
proof -
  have "(\<forall>p\<in>set (sort_key fst (zip (map f xs) xs)). fst p = f (snd p)) \<and>
        map snd (sort_key fst (zip (map f xs) xs)) = sort_key f xs"
  proof (induction xs)
    case Nil
    show ?case by simp
  next
    case (Cons x xs)
    then show ?case
      by (simp add: undecorate_insort set_insort_key_pairs)
  qed
  then show ?thesis by simp
qed

lemma sorted_by_column_present:
  "\<forall>r\<in>set s. has_column c r \<Longrightarrow> sorted_by_column s c = Inr (sort_key (column_key c) s)"
  by (simp add: sorted_by_column_def column_keys_present decorate_sort)

lemma sorted_by_column_missing:
  "\<exists>r\<in>set s. \<not> has_column c r \<Longrightarrow> sorted_by_column s c = Inl KeyError"
  by (simp add: sorted_by_column_def column_keys_missing)

declare binary_loop.simps [simp del]

lemma binary_loop_exit:
  "right < left \<Longrightarrow> binary_loop sd c t left right n = Inr (None, n)"
  by (simp add: binary_loop.simps)

lemma binary_loop_step:
  assumes "0 \<le> left" "left \<le> right" "right < int (length sd)"
    and "\<forall>r\<in>set sd. has_column c r"
  shows "binary_loop sd c t left right n =
     (if column_key c (sd ! nat ((left + right) div 2)) = t
        then Inr (Some (sd ! nat ((left + right) div 2)), n + 1)
      else if column_key c (sd ! nat ((left + right) div 2)) < t
        then binary_loop sd c t ((left + right) div 2 + 1) right (n + 1)
      else binary_loop sd c t left ((left + right) div 2 - 1) (n + 1))"
proof -
  let ?m = "(left + right) div 2"
  have m: "0 \<le> ?m" "?m < int (length sd)" using assms by auto
  then have "nat ?m < length sd" by simp
  then have "sd ! nat ?m \<in> set sd" by simp
  then obtain v where v: "(sd ! nat ?m) c = Some v"
    using assms(4) by (auto simp: has_column_def)
  have ix: "index_list sd ?m = Inr (sd ! nat ?m)"
    using m by (simp add: index_list_def)
  have gi: "getitem (sd ! nat ?m) c = Inr v"
    using v by (simp add: getitem_def)
  have ck: "column_key c (sd ! nat ?m) = py_str v"
    using v by (simp add: column_key_def)
  show ?thesis
    by (subst binary_loop.simps) (simp only: assms(2) ix gi ck if_True sum.case Suc_eq_plus1)
qed

lemma binary_loop_correct:
  assumes pres: "\<forall>r\<in>set sd. has_column c r"
    and srt: "sorted (map (column_key c) sd)"
  shows "0 \<le> left \<Longrightarrow> right < int (length sd) \<Longrightarrow>
     (\<forall>i<length sd. column_key c (sd ! i) = t \<longrightarrow> left \<le> int i \<and> int i \<le> right) \<Longrightarrow>
     \<exists>x k. binary_loop sd c t left right n = Inr (x, k) \<and>
            loop_post sd c t n (nat (right - left + 1)) x k"
proof (induction "nat (right - left + 1)" arbitrary: left right n rule: less_induct)
  case less
  show ?case
  proof (cases "left \<le> right")
    case False
    then have ex: "binary_loop sd c t left right n = Inr (None, n)"
      by (simp add: binary_loop_exit)
    have "\<forall>r\<in>set sd. column_key c r \<noteq> t"
    proof
      fix r assume "r \<in> set sd"
      then obtain i where i: "i < length sd" "sd ! i = r" by (auto simp: in_set_conv_nth)
      show "column_key c r \<noteq> t"
      proof
        assume "column_key c r = t"
        with i less.prems(3) have "left \<le> int i \<and> int i \<le> right" by auto
        with False show False by simp
      qed
    qed
    with ex False show ?thesis by (simp add: loop_post_def)
  next
    case True
    let ?m = "(left + right) div 2"
    let ?rec = "sd ! nat ?m"
    have m: "left \<le> ?m" "?m \<le> right" using True by auto
    have mlen: "nat ?m < length sd" using m less.prems by auto
    have step: "binary_loop sd c t left right n =
     (if column_key c ?rec = t then Inr (Some ?rec, n + 1)
      else if column_key c ?rec < t
        then binary_loop sd c t (?m + 1) right (n + 1)
      else binary_loop sd c t left (?m - 1) (n + 1))"
      using less.prems True pres by (intro binary_loop_step) auto
    have mono: "\<And>i j. i \<le> j \<Longrightarrow> j < length sd \<Longrightarrow> column_key c (sd ! i) \<le> column_key c (sd ! j)"
      using srt by (auto simp: sorted_iff_nth_mono)
    consider (eq) "column_key c ?rec = t" | (lt) "column_key c ?rec < t"
      | (gt) "column_key c ?rec \<noteq> t" "\<not> column_key c ?rec < t"
      by blast
    then show ?thesis
    proof cases
      case eq
      have "binary_loop sd c t left right n = Inr (Some ?rec, n + 1)"
        by (simp only: step eq if_True simp_thms)
      moreover have "loop_post sd c t n (nat (right - left + 1)) (Some ?rec) (n + 1)"
        using eq mlen True by (simp add: loop_post_def)
      ultimately show ?thesis by blast
    next
      case lt
      then have ne: "column_key c ?rec \<noteq> t" by simp
      have rec: "binary_loop sd c t left right n = binary_loop sd c t (?m + 1) right (n + 1)"
        by (simp only: step ne lt if_True if_False)
      have inv: "\<forall>i<length sd. column_key c (sd ! i) = t \<longrightarrow> ?m + 1 \<le> int i \<and> int i \<le> right"
      proof (intro allI impI)
        fix i assume i: "i < length sd" "column_key c (sd ! i) = t"
        then have r: "int i \<le> right" using less.prems(3) by auto
        have "\<not> i \<le> nat ?m"
        proof
          assume "i \<le> nat ?m"
          then have "column_key c (sd ! i) \<le> column_key c ?rec" using mono mlen by blast
          with i lt show False by simp
        qed
        then show "?m + 1 \<le> int i \<and> int i \<le> right" using r by linarith
      qed
      have "\<exists>x k. binary_loop sd c t (?m + 1) right (n + 1) = Inr (x, k) \<and>
            loop_post sd c t (n + 1) (nat (right - (?m + 1) + 1)) x k"
        using less.prems m True inv by (intro less.hyps) auto
      then obtain x k where xk: "binary_loop sd c t (?m + 1) right (n + 1) = Inr (x, k)"
        "loop_post sd c t (n + 1) (nat (right - (?m + 1) + 1)) x k" by blast
      have w: "2 * nat (right - (?m + 1) + 1) \<le> nat (right - left + 1)" using True by auto
      have "loop_post sd c t n (nat (right - left + 1)) x k"
      proof -
        from xk(2) have c1: "case x of None \<Rightarrow> \<forall>r\<in>set sd. column_key c r \<noteq> t
              | Some r \<Rightarrow> r \<in> set sd \<and> column_key c r = t"
          and c2: "n + 1 \<le> k"
          and c3: "k = n + 1 \<or> 2 ^ (k - (n + 1) - 1) \<le> nat (right - (?m + 1) + 1)"
          by (auto simp: loop_post_def)
        have "2 ^ (k - n - 1) \<le> nat (right - left + 1)"
        proof (cases "k = n + 1")
          case True
          then show ?thesis using \<open>left \<le> right\<close> by simp
        next
          case False
          with c3 have "(2::nat) ^ (k - (n + 1) - 1) \<le> nat (right - (?m + 1) + 1)" by simp
          then have "(2::nat) * 2 ^ (k - (n + 1) - 1) \<le> nat (right - left + 1)" using w by linarith
          moreover have "k - n - 1 = Suc (k - (n + 1) - 1)" using False c2 by simp
          ultimately show ?thesis by simp
        qed
        with c1 c2 show ?thesis by (simp add: loop_post_def)
      qed
      with rec xk(1) show ?thesis by simp
    next
      case gt
      have rec: "binary_loop sd c t left right n = binary_loop sd c t left (?m - 1) (n + 1)"
        by (simp only: step gt if_False)
      have inv: "\<forall>i<length sd. column_key c (sd ! i) = t \<longrightarrow> left \<le> int i \<and> int i \<le> ?m - 1"
      proof (intro allI impI)
        fix i assume i: "i < length sd" "column_key c (sd ! i) = t"
        then have l: "left \<le> int i" using less.prems(3) by auto
        have "\<not> nat ?m \<le> i"
        proof
          assume "nat ?m \<le> i"
          then have "column_key c ?rec \<le> column_key c (sd ! i)" using mono i by blast
          with i gt show False by simp
        qed
        then show "left \<le> int i \<and> int i \<le> ?m - 1" using l by linarith
      qed
      have "\<exists>x k. binary_loop sd c t left (?m - 1) (n + 1) = Inr (x, k) \<and>
            loop_post sd c t (n + 1) (nat (?m - 1 - left + 1)) x k"
        using less.prems m True inv by (intro less.hyps) auto
      then obtain x k where xk: "binary_loop sd c t left (?m - 1) (n + 1) = Inr (x, k)"
        "loop_post sd c t (n + 1) (nat (?m - 1 - left + 1)) x k" by blast
      have w: "2 * nat (?m - 1 - left + 1) \<le> nat (right - left + 1)" using True by auto
      have "loop_post sd c t n (nat (right - left + 1)) x k"
      proof -
        from xk(2) have c1: "case x of None \<Rightarrow> \<forall>r\<in>set sd. column_key c r \<noteq> t
              | Some r \<Rightarrow> r \<in> set sd \<and> column_key c r = t"
          and c2: "n + 1 \<le> k"
          and c3: "k = n + 1 \<or> 2 ^ (k - (n + 1) - 1) \<le> nat (?m - 1 - left + 1)"
          by (auto simp: loop_post_def)
        have "2 ^ (k - n - 1) \<le> nat (right - left + 1)"
        proof (cases "k = n + 1")
          case True
          then show ?thesis using \<open>left \<le> right\<close> by simp
        next
          case False
          with c3 have "(2::nat) ^ (k - (n + 1) - 1) \<le> nat (?m - 1 - left + 1)" by simp
          then have "(2::nat) * 2 ^ (k - (n + 1) - 1) \<le> nat (right - left + 1)" using w by linarith
          moreover have "k - n - 1 = Suc (k - (n + 1) - 1)" using False c2 by simp
          ultimately show ?thesis by simp
        qed
        with c1 c2 show ?thesis by (simp add: loop_post_def)
      qed
      with rec xk(1) show ?thesis by simp
    qed
  qed
qed

lemma matches_key:
  "has_column c r \<Longrightarrow> matches c t r \<longleftrightarrow> column_key c r = py_str t"
  by (auto simp: has_column_def matches_def column_key_def)

lemma binary_search_present:
  assumes pres: "\<forall>r\<in>set s. has_column c r"
  shows "\<exists>x k. binary_search s t c = Inr (x, k) \<and>
     (case x of None \<Rightarrow> \<forall>r\<in>set s. \<not> matches c t r
              | Some r \<Rightarrow> r \<in> set s \<and> matches c t r) \<and>
     (s \<noteq> [] \<longrightarrow> 0 < k) \<and> (k = 0 \<or> 2 ^ (k - 1) \<le> length s)"
proof -
  let ?sd = "sort_key (column_key c) s"
  have sd: "sorted_by_column s c = Inr ?sd" using pres by (rule sorted_by_column_present)
  have pres': "\<forall>r\<in>set ?sd. has_column c r" using pres by simp
  have srt: "sorted (map (column_key c) ?sd)" by (rule sorted_sort_key)
  have "\<exists>x k. binary_loop ?sd c (py_str t) 0 (int (length ?sd) - 1) 0 = Inr (x, k) \<and>
            loop_post ?sd c (py_str t) 0 (nat (int (length ?sd) - 1 - 0 + 1)) x k"
    using pres' srt by (rule binary_loop_correct) auto
  then obtain x k where xk: "binary_loop ?sd c (py_str t) 0 (int (length ?sd) - 1) 0 = Inr (x, k)"
    "loop_post ?sd c (py_str t) 0 (length s) x k" by auto
  have bs: "binary_search s t c = Inr (x, k)"
    using xk(1) by (simp add: binary_search_def sd)
  have p1: "case x of None \<Rightarrow> \<forall>r\<in>set s. \<not> matches c t r
              | Some r \<Rightarrow> r \<in> set s \<and> matches c t r"
    using xk(2) pres by (auto simp: loop_post_def matches_key split: option.splits)
  have p2: "s \<noteq> [] \<longrightarrow> 0 < k" using xk(2) by (auto simp: loop_post_def)
  have p3: "k = 0 \<or> 2 ^ (k - 1) \<le> length s" using xk(2) by (auto simp: loop_post_def)
  from bs p1 p2 p3 show ?thesis by blast
qed

lemma binary_search_missing:
  "\<exists>r\<in>set s. \<not> has_column c r \<Longrightarrow> binary_search s t c = Inr (None, 0)"
  by (simp add: binary_search_def sorted_by_column_missing)

lemma sequential_loop_first:
  "i < length s \<Longrightarrow> \<forall>j\<le>i. has_column c (s ! j) \<Longrightarrow> column_key c (s ! i) = t \<Longrightarrow>
   \<forall>j<i. column_key c (s ! j) \<noteq> t \<Longrightarrow>
   sequential_loop s c t n = Inr (Some (s ! i), n + i + 1)"
proof (induction s arbitrary: i n)
  case Nil
  then show ?case by simp
next
  case (Cons a s)
  from Cons.prems(2) have "has_column c ((a # s) ! 0)" by blast
  then obtain v where v: "a c = Some v" by (auto simp: has_column_def)
  show ?case
  proof (cases i)
    case 0
    with Cons.prems(3) v show ?thesis by (simp add: getitem_def column_key_def)
  next
    case (Suc i')
    with Cons.prems(4) have "column_key c ((a # s) ! 0) \<noteq> t" by blast
    then have ne: "py_str v \<noteq> t" using v by (simp add: column_key_def)
    have "sequential_loop s c t (n + 1) = Inr (Some (s ! i'), (n + 1) + i' + 1)"
    proof (rule Cons.IH)
      show "i' < length s" using Cons.prems(1) Suc by simp
      show "\<forall>j\<le>i'. has_column c (s ! j)"
      proof (intro allI impI)
        fix j assume "j \<le> i'"
        then have "Suc j \<le> i" using Suc by simp
        with Cons.prems(2) have "has_column c ((a # s) ! Suc j)" by blast
        then show "has_column c (s ! j)" by simp
      qed
      show "column_key c (s ! i') = t" using Cons.prems(3) Suc by simp
      show "\<forall>j<i'. column_key c (s ! j) \<noteq> t"
      proof (intro allI impI)
        fix j assume "j < i'"
        then have "Suc j < i" using Suc by simp
        with Cons.prems(4) have "column_key c ((a # s) ! Suc j) \<noteq> t" by blast
        then show "column_key c (s ! j) \<noteq> t" by simp
      qed
    qed
    then show ?thesis using v ne Suc by (simp add: getitem_def)
  qed
qed

lemma sequential_loop_absent:
  "\<forall>r\<in>set s. has_column c r \<and> column_key c r \<noteq> t \<Longrightarrow>
   sequential_loop s c t n = Inr (None, n + length s)"
  by (induction s arbitrary: n) (auto simp: has_column_def getitem_def column_key_def)

lemma sequential_loop_missing_first:
  "s \<noteq> [] \<Longrightarrow> \<not> has_column c (hd s) \<Longrightarrow> sequential_loop s c t n = Inl KeyError"
  by (cases s) (auto simp: has_column_def getitem_def)

lemma ceil_log2_bound:
  assumes "0 < k" "2 ^ (k - 1) \<le> N"
  shows "int k \<le> \<lceil>log 2 (real (N + 1))\<rceil>"
proof -
  have "(2::nat) ^ (k - 1) < N + 1" using assms(2) by simp
  then have "real (k - 1) < log 2 (real (N + 1))" by (rule less_log2_of_power)
  also have "\<dots> \<le> real_of_int \<lceil>log 2 (real (N + 1))\<rceil>" by (rule le_of_int_ceiling)
  finally have "int (k - 1) < \<lceil>log 2 (real (N + 1))\<rceil>" by linarith
  then show ?thesis using assms(1) by linarith
qed

lemma sequential_search_found:
  assumes "\<forall>r\<in>set s. has_column c r" and i: "i < length s"
    and m: "matches c t (s ! i)" and first: "\<forall>j<i. \<not> matches c t (s ! j)"
  shows "sequential_search s t c = Inr (Some (s ! i), i + 1)"
proof -
  have hc: "\<forall>j\<le>i. has_column c (s ! j)" using assms(1) i by simp
  have k: "column_key c (s ! i) = py_str t" using m hc by (simp add: matches_key)
  have nk: "\<forall>j<i. column_key c (s ! j) \<noteq> py_str t" using first hc by (simp add: matches_key)
  show ?thesis
    using sequential_loop_first [OF i hc k nk, of 0] by (simp add: sequential_search_def)
qed

lemma sequential_search_absent:
  assumes "\<forall>r\<in>set s. has_column c r" and "\<forall>r\<in>set s. \<not> matches c t r"
  shows "sequential_search s t c = Inr (None, length s)"
proof -
  from assms have "\<forall>r\<in>set s. has_column c r \<and> column_key c r \<noteq> py_str t"
    by (simp add: matches_key)
  then show ?thesis
    using sequential_loop_absent [of s c "py_str t" 0] by (simp add: sequential_search_def)
qed

lemma first_index:
  "\<exists>i<length xs. P (xs ! i) \<Longrightarrow> \<exists>i<length xs. P (xs ! i) \<and> (\<forall>j<i. \<not> P (xs ! j))"
proof (induction xs)
  case Nil
  then show ?case by simp
next
  case (Cons a xs)
  show ?case
  proof (cases "P a")
    case True
    then have "0 < length (a # xs) \<and> P ((a # xs) ! 0) \<and> (\<forall>j<0. \<not> P ((a # xs) ! j))" by simp
    then show ?thesis by blast
  next
    case False
    from Cons.prems obtain k where k: "k < length (a # xs)" "P ((a # xs) ! k)" by blast
    with False obtain k' where "k = Suc k'" by (cases k) auto
    with k have "\<exists>i<length xs. P (xs ! i)" by auto
    from Cons.IH [OF this] obtain i where i: "i < length xs" "P (xs ! i)" "\<forall>j<i. \<not> P (xs ! j)"
      by blast
    have "\<forall>j<Suc i. \<not> P ((a # xs) ! j)"
    proof (intro allI impI)
      fix j assume "j < Suc i"
      then show "\<not> P ((a # xs) ! j)" using False i(3) by (cases j) auto
    qed
    with i(1,2) have "Suc i < length (a # xs) \<and> P ((a # xs) ! Suc i) \<and>
        (\<forall>j<Suc i. \<not> P ((a # xs) ! j))" by simp
    then show ?thesis by blast
  qed
qed

lemma binary_search_empty: "binary_search [] t c = Inr (None, 0)"
  by (simp add: binary_search_def sorted_by_column_def binary_loop_exit)

lemma binary_search_heap_result:
  "fst (binary_search_heap h a t c) = binary_search (h ! a) t c"
  by (simp add: binary_search_heap_def py_sorted_def binary_search_def split: sum.splits)

lemma binary_search_heap_frame:
  "take (length h) (snd (binary_search_heap h a t c)) = h"
  by (simp add: binary_search_heap_def py_sorted_def split: sum.splits)

lemma no_connection_sentinel:
  "database_search_indexed None elapsed v column = (None, 0) \<and>
   database_search_unindexed None elapsed v column = (None, 0)"
  by (simp add: database_search_indexed_def database_search_unindexed_def)

lemma query_error_sentinel:
  "run_query c column v = Inl e \<Longrightarrow>
   database_search_indexed (Some c) elapsed v column = (None, 0) \<and>
   database_search_unindexed (Some c) elapsed v column = (None, 0)"
  by (simp add: database_search_indexed_def database_search_unindexed_def)

lemma reported_speedup_eq:
  assumes "binary_search s v c = Inr (x, kb)" and "sequential_search s v c = Inr (y, ks)"
    and "0 < kb" and "0 < ks"
  shows "reported_speedup conn elapsed s v c = Some (real ks / real kb)"
  using assms
  by (simp add: reported_speedup_def perform_search_comparison_def split: prod.splits)

lemma pow2_gt: "k \<le> 2 ^ (k - 1)" for k :: nat
proof (cases k)
  case 0
  then show ?thesis by simp
next
  case (Suc m)
  have "m < 2 ^ m" by (rule less_exp)
  then have "Suc m \<le> 2 ^ m" by (simp only: Suc_le_eq)
  with Suc show ?thesis by simp
qed

lemma binary_search_counts_when_column_present:
  assumes "s \<noteq> []" and "\<forall>r\<in>set s. has_column c r"
  shows "binary_search s t c \<noteq> Inr (None, 0)"
proof -
  from binary_search_present [OF assms(2), of t]
  obtain x k where "binary_search s t c = Inr (x, k)" "s \<noteq> [] \<longrightarrow> 0 < k" by blast
  with assms(1) show ?thesis by auto
qed

lemma binary_search_printed_missing:
  "\<exists>r\<in>set s. \<not> has_column c r \<Longrightarrow> binary_search_printed s t c = [ColumnNotFound c]"
  by (simp add: binary_search_printed_def sorted_by_column_missing)

lemmas sample_defs =
  snapshot3_def purchase_def has_column_def matches_def getitem_def column_key_def
  py_str_def str_nat.simps digit_char_def

lemmas search_defs =
  binary_search_def sorted_by_column_def binary_loop.simps index_list_def
  sequential_search_def

section \<open>Empty snapshot\<close>

text \<open>
  C4: on the empty snapshot, for any target and any column name, binary search and
  sequential search both return normally with no record and 0 comparisons.
\<close>

theorem empty_snapshot_not_found:
  "binary_search [] target_value search_column = Inr (None, 0) \<and>
   sequential_search [] target_value search_column = Inr (None, 0)"
  by (simp add: binary_search_empty sequential_search_def)

section \<open>Sequential search returns the first match\<close>

text \<open>
  C2: when every record of the snapshot has the column, sequential search returns the
  first record in snapshot order whose column value has the string form of the target,
  with a comparison count of that record's index plus one; when no record matches, it
  returns no record and a count equal to the length of the snapshot.
\<close>

theorem sequential_search_first_match:
  assumes "\<forall>r\<in>set snapshot. has_column search_column r"
  shows "(\<forall>i<length snapshot.
            matches search_column target_value (snapshot ! i) \<and>
            (\<forall>j<i. \<not> matches search_column target_value (snapshot ! j)) \<longrightarrow>
            sequential_search snapshot target_value search_column = Inr (Some (snapshot ! i), i + 1)) \<and>
         ((\<forall>r\<in>set snapshot. \<not> matches search_column target_value r) \<longrightarrow>
            sequential_search snapshot target_value search_column = Inr (None, length snapshot))"
proof (intro conjI allI impI)
  fix i
  assume "i < length snapshot"
    and "matches search_column target_value (snapshot ! i) \<and>
         (\<forall>j<i. \<not> matches search_column target_value (snapshot ! j))"
  then show "sequential_search snapshot target_value search_column = Inr (Some (snapshot ! i), i + 1)"
    using assms by (intro sequential_search_found) simp_all
next
  assume "\<forall>r\<in>set snapshot. \<not> matches search_column target_value r"
  then show "sequential_search snapshot target_value search_column = Inr (None, length snapshot)"
    using assms by (intro sequential_search_absent)
qed

theorem sequential_search_first_match_witness:
  "list_all (has_column ''customer_id'') snapshot3 \<and>
   sequential_search snapshot3 (PyInt 2) ''customer_id'' = Inr (Some (snapshot3 ! 1), 1 + 1) \<and>
   sequential_search snapshot3 (PyInt 9) ''customer_id'' = Inr (None, length snapshot3)"
proof -
  have h: "\<forall>r\<in>set snapshot3. has_column ''customer_id'' r"
    by (simp add: sample_defs)
  have m: "matches ''customer_id'' (PyInt 2) (snapshot3 ! 1) \<and>
           (\<forall>j<1. \<not> matches ''customer_id'' (PyInt 2) (snapshot3 ! j))"
    by (simp add: sample_defs)
  have a: "\<forall>r\<in>set snapshot3. \<not> matches ''customer_id'' (PyInt 9) r"
    by (simp add: sample_defs)
  have l: "1 < length snapshot3" by (simp add: snapshot3_def)
  from sequential_search_first_match [OF h, of "PyInt 2"] l m
  have "sequential_search snapshot3 (PyInt 2) ''customer_id'' = Inr (Some (snapshot3 ! 1), 1 + 1)"
    by blast
  moreover from sequential_search_first_match [OF h, of "PyInt 9"] a
  have "sequential_search snapshot3 (PyInt 9) ''customer_id'' = Inr (None, length snapshot3)"
    by blast
  moreover have "list_all (has_column ''customer_id'') snapshot3"
    using h by (simp add: list_all_iff)
  ultimately show ?thesis by blast
qed

section \<open>Binary search finds an existing target within the logarithmic bound\<close>

text \<open>
  C3, as the code has it: on a non-empty snapshot of size N in which every record has
  the column, for a target whose string form occurs in the column, binary search
  returns a matching record of the snapshot after at least one and at most
  ceil(log2(N+1)) comparisons, one comparison per iteration of the loop over the copy
  sorted by the column's string form.
\<close>

theorem binary_search_log_bound:
  assumes "snapshot \<noteq> []"
    and "\<forall>r\<in>set snapshot. has_column search_column r"
    and "\<exists>r\<in>set snapshot. matches search_column target_value r"
  shows "\<exists>record comparisons.
           binary_search snapshot target_value search_column = Inr (Some record, comparisons) \<and>
           record \<in> set snapshot \<and> matches search_column target_value record \<and>
           0 < comparisons \<and>
           int comparisons \<le> \<lceil>log 2 (real (length snapshot + 1))\<rceil>"
proof -
  from binary_search_present [OF assms(2), of target_value]
  obtain x k where xk: "binary_search snapshot target_value search_column = Inr (x, k)"
    "case x of None \<Rightarrow> \<forall>r\<in>set snapshot. \<not> matches search_column target_value r
            | Some r \<Rightarrow> r \<in> set snapshot \<and> matches search_column target_value r"
    "snapshot \<noteq> [] \<longrightarrow> 0 < k" "k = 0 \<or> 2 ^ (k - 1) \<le> length snapshot"
    by blast
  from xk(2) assms(3) obtain r where r: "x = Some r" "r \<in> set snapshot"
    "matches search_column target_value r"
    by (cases x) auto
  have k: "0 < k" "2 ^ (k - 1) \<le> length snapshot" using xk(3,4) assms(1) by auto
  then have "int k \<le> \<lceil>log 2 (real (length snapshot + 1))\<rceil>" by (rule ceil_log2_bound)
  with xk(1) r k(1) show ?thesis by blast
qed

theorem binary_search_log_bound_witness:
  "snapshot3 \<noteq> [] \<and> list_all (has_column ''customer_id'') snapshot3 \<and>
   list_ex (matches ''customer_id'' (PyInt 3)) snapshot3 \<and>
   (\<exists>record comparisons.
      binary_search snapshot3 (PyInt 3) ''customer_id'' = Inr (Some record, comparisons) \<and>
      matches ''customer_id'' (PyInt 3) record \<and>
      0 < comparisons \<and>
      int comparisons \<le> \<lceil>log 2 (real (length snapshot3 + 1))\<rceil>)"
proof -
  have n: "snapshot3 \<noteq> []" by (simp add: snapshot3_def)
  have h: "\<forall>r\<in>set snapshot3. has_column ''customer_id'' r"
    by (simp add: sample_defs)
  have m: "\<exists>r\<in>set snapshot3. matches ''customer_id'' (PyInt 3) r"
    by (simp add: sample_defs)
  from binary_search_log_bound [OF n h m]
  have "\<exists>record comparisons.
      binary_search snapshot3 (PyInt 3) ''customer_id'' = Inr (Some record, comparisons) \<and>
      matches ''customer_id'' (PyInt 3) record \<and>
      0 < comparisons \<and>
      int comparisons \<le> \<lceil>log 2 (real (length snapshot3 + 1))\<rceil>"
    by blast
  with n h m show ?thesis by (simp add: list_all_iff list_ex_iff)
qed

text \<open>
  The claim as stated, for every snapshot in whose column the target occurs, fails on
  a snapshot in which one record lacks the column: the sort raises KeyError, the
  handler returns no record and 0 comparisons, although the first record matches.
\<close>

theorem binary_search_misses_on_ragged_snapshot:
  "ragged3 \<noteq> [] \<and>
   matches ''customer_name'' (PyStr ''Ada'') (ragged3 ! 0) \<and>
   binary_search ragged3 (PyStr ''Ada'') ''customer_name'' = Inr (None, 0)"
  by (simp add: ragged3_def search_defs purchase_def matches_def getitem_def py_str_def)

section \<open>Agreement of the two searches\<close>

text \<open>
  C1, as the code has it: when every record of the snapshot has the column (the empty
  snapshot included), binary search and sequential search agree on the outcome: both
  return a record whose column value has the string form of the target, or both return
  no record; and the two records differ only when two records of the snapshot share
  the same string form of the column value.
\<close>

theorem searches_agree_when_column_present:
  assumes "\<forall>r\<in>set snapshot. has_column search_column r"
  shows "(\<exists>rb kb rs ks.
            binary_search snapshot target_value search_column = Inr (Some rb, kb) \<and>
            sequential_search snapshot target_value search_column = Inr (Some rs, ks) \<and>
            matches search_column target_value rb \<and>
            matches search_column target_value rs \<and>
            (rb \<noteq> rs \<longrightarrow> \<not> distinct (map (column_key search_column) snapshot))) \<or>
         (\<exists>kb ks.
            binary_search snapshot target_value search_column = Inr (None, kb) \<and>
            sequential_search snapshot target_value search_column = Inr (None, ks))"
proof -
  let ?P = "matches search_column target_value"
  from binary_search_present [OF assms, of target_value]
  obtain x k where xk: "binary_search snapshot target_value search_column = Inr (x, k)"
    "case x of None \<Rightarrow> \<forall>r\<in>set snapshot. \<not> ?P r
            | Some r \<Rightarrow> r \<in> set snapshot \<and> ?P r"
    by blast
  show ?thesis
  proof (cases x)
    case None
    with xk(2) have no: "\<forall>r\<in>set snapshot. \<not> ?P r" by simp
    then have "sequential_search snapshot target_value search_column = Inr (None, length snapshot)"
      using assms by (intro sequential_search_absent)
    with xk(1) None show ?thesis by blast
  next
    case (Some rb)
    with xk(2) have rb: "rb \<in> set snapshot" "?P rb" by simp_all
    then have ex: "\<exists>i<length snapshot. ?P (snapshot ! i)" by (auto simp: in_set_conv_nth)
    from first_index [OF ex] obtain i where i: "i < length snapshot \<and> ?P (snapshot ! i)"
      and least: "\<forall>j<i. \<not> ?P (snapshot ! j)"
      by blast
    have sq: "sequential_search snapshot target_value search_column = Inr (Some (snapshot ! i), i + 1)"
      using assms i least by (intro sequential_search_found) auto
    have "rb \<noteq> snapshot ! i \<longrightarrow> \<not> distinct (map (column_key search_column) snapshot)"
    proof (intro impI notI)
      assume ne: "rb \<noteq> snapshot ! i" and d: "distinct (map (column_key search_column) snapshot)"
      have inj: "inj_on (column_key search_column) (set snapshot)"
        using d by (simp add: distinct_map)
      have mem: "snapshot ! i \<in> set snapshot" using i by simp
      have "column_key search_column rb = py_str target_value"
        using rb assms by (simp add: matches_key)
      moreover have "column_key search_column (snapshot ! i) = py_str target_value"
        using i mem assms by (simp add: matches_key)
      ultimately have "column_key search_column rb = column_key search_column (snapshot ! i)"
        by simp
      with mem have "rb = snapshot ! i" using inj rb(1) by (auto dest: inj_onD)
      with ne show False by simp
    qed
    with xk(1) Some sq rb(2) i show ?thesis by blast
  qed
qed

theorem searches_agree_when_column_present_witness:
  "list_all (has_column ''product_category'') snapshot3 \<and>
   ((\<exists>rb kb rs ks.
       binary_search snapshot3 (PyStr ''Books'') ''product_category'' = Inr (Some rb, kb) \<and>
       sequential_search snapshot3 (PyStr ''Books'') ''product_category'' = Inr (Some rs, ks)) \<or>
    (\<exists>kb ks.
       binary_search snapshot3 (PyStr ''Books'') ''product_category'' = Inr (None, kb) \<and>
       sequential_search snapshot3 (PyStr ''Books'') ''product_category'' = Inr (None, ks)))"
proof -
  have h: "\<forall>r\<in>set snapshot3. has_column ''product_category'' r"
    by (simp add: sample_defs)
  have "list_all (has_column ''product_category'') snapshot3"
    using h by (simp add: list_all_iff)
  with searches_agree_when_column_present [OF h, of "PyStr ''Books''"] show ?thesis
    by blast
qed

text \<open>
  The claim as stated, for every column, fails on a column the records do not have:
  binary search returns no record, sequential search raises KeyError.
\<close>

theorem searches_disagree_on_missing_column:
  "binary_search snapshot3 (PyInt 1) ''email'' = Inr (None, 0) \<and>
   sequential_search snapshot3 (PyInt 1) ''email'' = Inl KeyError"
  by (simp add: search_defs sample_defs)

section \<open>A column the records do not have\<close>

text \<open>
  C10: on a non-empty snapshot and a column that no record has, sequential search
  raises KeyError to its caller, and binary search catches it and returns no record
  with 0 comparisons, the value it returns on the empty snapshot.
\<close>

theorem missing_column_outcomes:
  assumes "snapshot \<noteq> []" and "\<forall>r\<in>set snapshot. \<not> has_column search_column r"
  shows "sequential_search snapshot target_value search_column = Inl KeyError \<and>
         binary_search snapshot target_value search_column = Inr (None, 0) \<and>
         binary_search snapshot target_value search_column =
           binary_search [] target_value search_column"
proof -
  from assms have hd: "\<not> has_column search_column (hd snapshot)" by (cases snapshot) auto
  have s: "sequential_search snapshot target_value search_column = Inl KeyError"
    using sequential_loop_missing_first [OF assms(1) hd] by (simp add: sequential_search_def)
  from assms have "\<exists>r\<in>set snapshot. \<not> has_column search_column r" by (cases snapshot) auto
  then have b: "binary_search snapshot target_value search_column = Inr (None, 0)"
    by (rule binary_search_missing)
  have e: "binary_search [] target_value search_column = Inr (None, 0)"
    by (rule binary_search_empty)
  from s b e show ?thesis by simp
qed

theorem missing_column_outcomes_witness:
  "snapshot3 \<noteq> [] \<and> list_all (\<lambda>r. \<not> has_column ''region'' r) snapshot3 \<and>
   sequential_search snapshot3 (PyStr ''EU'') ''region'' = Inl KeyError \<and>
   binary_search snapshot3 (PyStr ''EU'') ''region'' = Inr (None, 0) \<and>
   binary_search snapshot3 (PyStr ''EU'') ''region'' = binary_search [] (PyStr ''EU'') ''region''"
proof -
  have n: "snapshot3 \<noteq> []" by (simp add: snapshot3_def)
  have h: "\<forall>r\<in>set snapshot3. \<not> has_column ''region'' r"
    by (simp add: sample_defs)
  have "list_all (\<lambda>r. \<not> has_column ''region'' r) snapshot3"
    using h by (simp only: list_all_iff)
  with missing_column_outcomes [OF n h, of "PyStr ''EU''"] n show ?thesis
    by blast
qed

text \<open>
  C5: on a non-empty snapshot whose records lack the column, binary search reports the
  missing column, by its message and by a result with 0 comparisons that no search of
  a non-empty snapshot with the column returns. Sequential search does not mirror it:
  with no handler of its own it raises KeyError to its caller.
\<close>

theorem sequential_search_does_not_mirror:
  "snapshot3 \<noteq> [] \<and> list_all (\<lambda>r. \<not> has_column ''price'' r) snapshot3 \<and>
   binary_search_printed snapshot3 (PyStr ''19.99'') ''price'' = [ColumnNotFound ''price''] \<and>
   binary_search snapshot3 (PyStr ''19.99'') ''price'' = Inr (None, 0) \<and>
   sequential_search snapshot3 (PyStr ''19.99'') ''price'' = Inl KeyError"
  by (simp add: binary_search_printed_def search_defs sample_defs)

section \<open>The snapshot is not mutated\<close>

text \<open>
  C9: binary search leaves the snapshot as it was. The list object that
  \<open>self.product_data\<close> refers to holds the same records in the same order after the
  call, as does every list object that existed before it; the sorted copy is a new
  object. The result is that of binary search on the snapshot's records.
\<close>

theorem binary_search_leaves_snapshot:
  assumes "data_ref < length h"
  shows "snd (binary_search_heap h data_ref target_value search_column) ! data_ref = h ! data_ref \<and>
         take (length h) (snd (binary_search_heap h data_ref target_value search_column)) = h \<and>
         fst (binary_search_heap h data_ref target_value search_column) =
           binary_search (h ! data_ref) target_value search_column"
proof -
  let ?h' = "snd (binary_search_heap h data_ref target_value search_column)"
  have t: "take (length h) ?h' = h" by (rule binary_search_heap_frame)
  have "take (length h) ?h' ! data_ref = ?h' ! data_ref" using assms by simp
  with t have "?h' ! data_ref = h ! data_ref" by simp
  with t show ?thesis by (simp add: binary_search_heap_result)
qed

theorem binary_search_leaves_snapshot_witness:
  "(0::nat) < length [snapshot3] \<and>
   snd (binary_search_heap [snapshot3] 0 (PyInt 2) ''customer_id'') ! 0 = snapshot3 \<and>
   length (snd (binary_search_heap [snapshot3] 0 (PyInt 2) ''customer_id'')) = 2"
proof -
  have l: "(0::nat) < length [snapshot3]" by simp
  have "length (snd (binary_search_heap [snapshot3] 0 (PyInt 2) ''customer_id'')) = 2"
    by (simp add: binary_search_heap_def py_sorted_def sorted_by_column_def sample_defs)
  with binary_search_leaves_snapshot [OF l, of "PyInt 2" "''customer_id''"] show ?thesis
    by simp
qed

section \<open>Speed-up ratio\<close>

text \<open>
  C8, as the code has it: on a non-empty snapshot of size N whose records all have the
  column, the speed-up ratio that the reporter computes, sequential comparisons over
  binary comparisons, is at least 1 when no record matches the target, and when the
  first matching record in snapshot order is at index i with N < 2^(i+1).
\<close>

theorem speedup_at_least_one:
  assumes "snapshot \<noteq> []"
    and "\<forall>r\<in>set snapshot. has_column search_column r"
    and "(\<forall>r\<in>set snapshot. \<not> matches search_column target_value r) \<or>
         (\<exists>i<length snapshot.
            matches search_column target_value (snapshot ! i) \<and>
            (\<forall>j<i. \<not> matches search_column target_value (snapshot ! j)) \<and>
            length snapshot < 2 ^ (i + 1))"
  shows "\<exists>q. reported_speedup conn elapsed snapshot target_value search_column = Some q \<and> 1 \<le> q"
proof -
  from binary_search_present [OF assms(2), of target_value]
  obtain x kb where b: "binary_search snapshot target_value search_column = Inr (x, kb)"
    and "snapshot \<noteq> [] \<longrightarrow> 0 < kb" and "kb = 0 \<or> 2 ^ (kb - 1) \<le> length snapshot"
    by blast
  with assms(1) have kb: "0 < kb" "2 ^ (kb - 1) \<le> length snapshot" by auto
  have "\<exists>y ks. sequential_search snapshot target_value search_column = Inr (y, ks) \<and> kb \<le> ks"
    using assms(3)
  proof
    assume "\<forall>r\<in>set snapshot. \<not> matches search_column target_value r"
    with assms(2)
    have "sequential_search snapshot target_value search_column = Inr (None, length snapshot)"
      by (rule sequential_search_absent)
    moreover have "kb \<le> length snapshot" using kb(2) pow2_gt [of kb] by linarith
    ultimately show ?thesis by blast
  next
    assume "\<exists>i<length snapshot.
            matches search_column target_value (snapshot ! i) \<and>
            (\<forall>j<i. \<not> matches search_column target_value (snapshot ! j)) \<and>
            length snapshot < 2 ^ (i + 1)"
    then obtain i where i: "i < length snapshot"
      "matches search_column target_value (snapshot ! i)"
      "\<forall>j<i. \<not> matches search_column target_value (snapshot ! j)"
      "length snapshot < 2 ^ (i + 1)" by blast
    have "sequential_search snapshot target_value search_column = Inr (Some (snapshot ! i), i + 1)"
      using assms(2) i(1,2,3) by (rule sequential_search_found)
    moreover have "kb \<le> i + 1"
    proof -
      have one: "(1::nat) < 2" by simp
      have "(2::nat) ^ (kb - 1) < 2 ^ (i + 1)" using kb(2) i(4) by linarith
      with one have "kb - 1 < i + 1" by (rule power_less_imp_less_exp)
      then show ?thesis by simp
    qed
    ultimately show ?thesis by blast
  qed
  then obtain y ks where s: "sequential_search snapshot target_value search_column = Inr (y, ks)"
    and le: "kb \<le> ks" by blast
  have ks: "0 < ks" using kb(1) le by simp
  have "reported_speedup conn elapsed snapshot target_value search_column =
          Some (real ks / real kb)"
    using b s kb(1) ks by (rule reported_speedup_eq)
  moreover have "1 \<le> real ks / real kb" using kb(1) le by simp
  ultimately show ?thesis by blast
qed

theorem speedup_at_least_one_witness:
  "snapshot3 \<noteq> [] \<and> list_all (has_column ''customer_id'') snapshot3 \<and>
   matches ''customer_id'' (PyInt 3) (snapshot3 ! 2) \<and> length snapshot3 < 2 ^ (2 + 1) \<and>
   (\<exists>q. reported_speedup None 0 snapshot3 (PyInt 3) ''customer_id'' = Some q \<and> 1 \<le> q)"
proof -
  have n: "snapshot3 \<noteq> []" by (simp add: snapshot3_def)
  have h: "\<forall>r\<in>set snapshot3. has_column ''customer_id'' r"
    by (simp add: sample_defs)
  have m: "2 < length snapshot3 \<and> matches ''customer_id'' (PyInt 3) (snapshot3 ! 2) \<and>
      (\<forall>j<2. \<not> matches ''customer_id'' (PyInt 3) (snapshot3 ! j)) \<and>
      length snapshot3 < 2 ^ (2 + 1)"
    by (simp add: sample_defs less_Suc_eq numeral_2_eq_2)
  then have c: "(\<forall>r\<in>set snapshot3. \<not> matches ''customer_id'' (PyInt 3) r) \<or>
         (\<exists>i<length snapshot3.
            matches ''customer_id'' (PyInt 3) (snapshot3 ! i) \<and>
            (\<forall>j<i. \<not> matches ''customer_id'' (PyInt 3) (snapshot3 ! j)) \<and>
            length snapshot3 < 2 ^ (i + 1))"
    by blast
  from speedup_at_least_one [OF n h c, of None 0] n h m show ?thesis
    by (simp add: list_all_iff)
qed

text \<open>
  The claim as stated fails on three records with distinct customer identifiers: the
  target in the first record costs sequential search one comparison and binary search
  two, and the reporter's ratio is one half.
\<close>

theorem speedup_below_one:
  "1 < length snapshot3 \<and> distinct (map (column_key ''customer_id'') snapshot3) \<and>
   reported_speedup None 0 snapshot3 (PyInt 1) ''customer_id'' = Some (1 / 2)"
  by (simp add: reported_speedup_def perform_search_comparison_def indexed_columns_def
      database_search_indexed_def search_defs sample_defs)

section \<open>Errors of the store and of start-up\<close>

text \<open>
  C7: a lookup whose query fails returns no row and zero elapsed time, but the reporter
  called on a column that neither the store nor the records have does not complete:
  the KeyError of sequential search leaves it.
\<close>

theorem reporter_fails_on_unknown_column:
  "database_search_unindexed (Some failing_store) (1 / 100) (PyInt 1) ''email'' = (None, 0) \<and>
   perform_search_comparison (Some failing_store) (1 / 100) snapshot3 (PyInt 1) ''email'' =
     Inl KeyError"
  by (simp add: perform_search_comparison_def indexed_columns_def failing_store_def
      database_search_unindexed_def search_defs sample_defs)

text \<open>
  C6: when the connection cannot be established, start-up ends with the
  AttributeError of the call to the method that the class does not define; it reaches
  neither a snapshot loaded from a file nor the report that no data is available.
\<close>

theorem startup_without_store_raises:
  "main_startup (Inl DatabaseError) = Inl AttributeError"
  by (simp add: main_startup_def init_def connect_to_database_def load_from_csv_def)

end
